theory Spec2Isabelle
  imports Complex_Main "HOL-Library.Log_Nat" "HOL-Library.Sublist"
begin

section \<open>Python values used by the subtitle code of \<^verbatim>\<open>app.py\<close>\<close>

subsection \<open>Floats\<close>

text \<open>
  A finite Python \<^verbatim>\<open>float\<close> is an IEEE-754 binary64 number, hence a rational.
  Numbers are modelled as \<^typ>\<open>rat\<close>; the result of a float operation is the exact
  result rounded to the nearest binary64 number, ties to even (53 significant bits,
  least exponent \<open>-1022\<close>). Overflow to infinity is not modelled: neither
  \<^verbatim>\<open>start + 1\<close> on a finite float nor the product of a fraction below one with
  \<^verbatim>\<open>1e6\<close> can exceed the largest finite float.
\<close>

definition round_half_even :: "rat \<Rightarrow> int" where
  "round_half_even x =
     (let n = \<lfloor>x\<rfloor>; d = x - of_int n
      in if d < 1 / 2 then n else if 1 / 2 < d then n + 1 else if even n then n else n + 1)"

definition float_exponent :: "rat \<Rightarrow> int" where
  \<comment> \<open>\<open>\<lfloor>log\<^sub>2 \<bar>x\<bar>\<rfloor>\<close> for \<open>x \<noteq> 0\<close>, not below the exponent of the subnormal range.\<close>
  "float_exponent x =
     (let (p, q) = quotient_of \<bar>x\<bar>; e = bitlen p - bitlen q
      in max (- 1022) (if 2 powi e \<le> \<bar>x\<bar> then e else e - 1))"

definition round_double :: "rat \<Rightarrow> rat" where
  "round_double x =
     (if x = 0 then 0
      else let ulp = 2 powi (float_exponent x - 52)
           in of_int (round_half_even (x / ulp)) * ulp)"

definition is_double :: "rat \<Rightarrow> bool" where
  "is_double x \<longleftrightarrow> round_double x = x \<and> \<bar>x\<bar> < 2 ^ 1024"

definition float_add :: "rat \<Rightarrow> rat \<Rightarrow> rat" where
  "float_add x y = round_double (x + y)"

definition float_mul :: "rat \<Rightarrow> rat \<Rightarrow> rat" where
  "float_mul x y = round_double (x * y)"

definition trunc :: "rat \<Rightarrow> int" where
  \<comment> \<open>The integral part that C's \<^verbatim>\<open>modf\<close> splits off: rounding towards zero.\<close>
  "trunc x = (if 0 \<le> x then \<lfloor>x\<rfloor> else \<lceil>x\<rceil>)"

subsection \<open>Strings\<close>

text \<open>
  A Python \<^verbatim>\<open>str\<close> is a sequence of Unicode code points, not of bytes: the
  ellipsis that \<^verbatim>\<open>create_srt\<close> inserts is the single code point U+2026.
  \<open>py_str\<close> reads an ASCII literal as such a sequence. A \<^verbatim>\<open>str\<close> may hold lone
  surrogates, which only fail when the text is encoded.
\<close>

type_synonym codepoint = nat
type_synonym pystr = "codepoint list"

definition py_str :: "string \<Rightarrow> pystr" where
  "py_str s = map of_char s"

definition ellipsis :: codepoint where
  "ellipsis = 0x2026"

definition isspace :: "codepoint \<Rightarrow> bool" where
  \<comment> \<open>The code points for which \<^verbatim>\<open>str.isspace\<close> holds; \<^verbatim>\<open>str.strip()\<close> removes these.\<close>
  "isspace c \<longleftrightarrow>
     (0x09 \<le> c \<and> c \<le> 0x0D) \<or> (0x1C \<le> c \<and> c \<le> 0x20) \<or> c = 0x85 \<or> c = 0xA0 \<or>
     c = 0x1680 \<or> (0x2000 \<le> c \<and> c \<le> 0x200A) \<or> c = 0x2028 \<or> c = 0x2029 \<or>
     c = 0x202F \<or> c = 0x205F \<or> c = 0x3000"

definition str_strip :: "pystr \<Rightarrow> pystr" where
  "str_strip s = rev (dropWhile isspace (rev (dropWhile isspace s)))"

definition stripped :: "pystr \<Rightarrow> bool" where
  \<comment> \<open>Nothing for \<^verbatim>\<open>strip()\<close> to remove at either end.\<close>
  "stripped s \<longleftrightarrow> s = [] \<or> (\<not> isspace (hd s) \<and> \<not> isspace (last s))"

fun replace_from :: "pystr \<Rightarrow> pystr \<Rightarrow> pystr \<Rightarrow> pystr" where
  \<comment> \<open>Left to right, non-overlapping, for a non-empty \<open>old\<close>.\<close>
  "replace_from old new [] = []"
| "replace_from old new (c # cs) =
     (if prefix old (c # cs) then new @ replace_from old new (drop (length old - 1) cs)
      else c # replace_from old new cs)"

definition str_replace :: "pystr \<Rightarrow> pystr \<Rightarrow> pystr \<Rightarrow> pystr" where
  \<comment> \<open>\<^verbatim>\<open>s.replace(old, new)\<close>; an empty \<open>old\<close> matches before every code point and at the end.\<close>
  "str_replace s old new =
     (if old = [] then new @ concat (map (\<lambda>c. c # new) s) else replace_from old new s)"

fun digits :: "nat \<Rightarrow> pystr" where
  "digits n = (if n < 10 then [48 + n] else digits (n div 10) @ [48 + n mod 10])"

declare digits.simps [simp del]

definition str_of_int :: "int \<Rightarrow> pystr" where
  \<comment> \<open>\<^verbatim>\<open>f"{i}"\<close>\<close>
  "str_of_int i = (if i < 0 then py_str ''-'' @ digits (nat (- i)) else digits (nat i))"

definition format_0d :: "nat \<Rightarrow> int \<Rightarrow> pystr" where
  \<comment> \<open>\<^verbatim>\<open>f"{i:0wd}"\<close>: zeros after the sign up to width \<open>w\<close>, never cutting digits.\<close>
  "format_0d w i =
     (let ds = digits (nat \<bar>i\<bar>); sign = (if i < 0 then py_str ''-'' else [])
      in sign @ replicate (w - length sign - length ds) 48 @ ds)"

section \<open>The subtitle code\<close>

subsection \<open>\<^verbatim>\<open>timedelta(seconds=...)\<close>\<close>

text \<open>
  \<^verbatim>\<open>datetime.timedelta\<close> splits the argument with \<^verbatim>\<open>modf\<close>, multiplies the
  fraction by \<^verbatim>\<open>1e6\<close> as a float, rounds that to a whole number of microseconds (ties
  to even) and normalises the total into days, seconds in \<open>[0, 86400)\<close> and
  microseconds in \<open>[0, 10\<^sup>6)\<close>. It raises \<^verbatim>\<open>OverflowError\<close> when the day count
  leaves \<open>\<plusminus>999999999\<close>.
\<close>

datatype py_error = OverflowError | UnicodeEncodeError

record timedelta =
  days :: int
  seconds :: int
  microseconds :: int

definition total_microseconds :: "rat \<Rightarrow> int" where
  "total_microseconds x =
     (let whole = trunc x; frac = x - of_int whole
      in whole * 1000000 + round_half_even (float_mul frac 1000000))"

definition timedelta_seconds :: "rat \<Rightarrow> py_error + timedelta" where
  "timedelta_seconds x =
     (let us = total_microseconds x; d = us div 86400000000
      in if d < - 999999999 \<or> 999999999 < d then Inl OverflowError
         else Inr \<lparr>days = d, seconds = us div 1000000 mod 86400, microseconds = us mod 1000000\<rparr>)"

subsection \<open>\<^verbatim>\<open>time_format\<close> (lines 52--59)\<close>

definition time_format :: "rat \<Rightarrow> py_error + pystr" where
  "time_format secs =
     (case timedelta_seconds secs of
        Inl e \<Rightarrow> Inl e
      | Inr td \<Rightarrow>
          let hours = seconds td div 3600;
              minutes = seconds td mod 3600 div 60;
              secs' = seconds td mod 60;
              milliseconds = microseconds td div 1000
          in Inr (format_0d 2 hours @ py_str '':'' @ format_0d 2 minutes @ py_str '':'' @
                  format_0d 2 secs' @ py_str '','' @ format_0d 3 milliseconds))"

subsection \<open>The timing loop of \<^verbatim>\<open>transcribe_video\<close> (lines 84--88)\<close>

record segment =
  seg_start :: rat
  seg_end :: rat
  seg_text :: pystr

definition normalize_segment :: "segment \<Rightarrow> segment" where
  \<comment> \<open>The loop body: the second test reads the start the first one may have reset.\<close>
  "normalize_segment segment =
     (let segment = (if seg_start segment < 0 then segment\<lparr>seg_start := 0\<rparr> else segment)
      in if seg_end segment \<le> seg_start segment
         then segment\<lparr>seg_end := float_add (seg_start segment) 1\<rparr>
         else segment)"

definition refine_timing :: "segment list \<Rightarrow> segment list" where
  "refine_timing segments = map normalize_segment segments"

subsection \<open>\<^verbatim>\<open>create_srt\<close> (lines 92--107)\<close>

definition clean_text :: "pystr \<Rightarrow> pystr" where
  \<comment> \<open>Lines 98 and 101: strip, then the two chained replacements.\<close>
  "clean_text text =
     str_replace (str_replace (str_strip text) (py_str ''...'') [ellipsis])
       (py_str ''..'') (py_str ''.'')"

definition is_surrogate :: "codepoint \<Rightarrow> bool" where
  \<comment> \<open>U+D800 to U+DFFF: the code points that UTF-8 refuses to encode.\<close>
  "is_surrogate c \<longleftrightarrow> 0xD800 \<le> c \<and> c \<le> 0xDFFF"

definition utf8_encodable :: "pystr \<Rightarrow> bool" where
  "utf8_encodable s = list_all (\<lambda>c. \<not> is_surrogate c) s"

definition file_write :: "pystr \<Rightarrow> pystr \<Rightarrow> py_error + pystr" where
  \<comment> \<open>\<^verbatim>\<open>f.write(s)\<close> on the file opened with \<^verbatim>\<open>encoding='utf-8'\<close>: \<open>s\<close> is encoded
      at the call, which raises on a lone surrogate and writes nothing of \<open>s\<close>.\<close>
  "file_write f s = (if utf8_encodable s then Inr (f @ s) else Inl UnicodeEncodeError)"

fun write_segments :: "int \<Rightarrow> segment list \<Rightarrow> pystr \<Rightarrow> py_error + pystr" where
  \<comment> \<open>The loop over \<^verbatim>\<open>enumerate(segments, 1)\<close>; \<open>f\<close> is what has been written so far.\<close>
  "write_segments i [] f = Inr f"
| "write_segments i (segment # rest) f =
     (case time_format (seg_start segment) of
        Inl e \<Rightarrow> Inl e
      | Inr start_time \<Rightarrow>
          (case time_format (seg_end segment) of
             Inl e \<Rightarrow> Inl e
           | Inr end_time \<Rightarrow>
               let text = clean_text (seg_text segment)
               in (case file_write f (str_of_int i @ py_str ''\<newline>'') of
                     Inl e \<Rightarrow> Inl e
                   | Inr f \<Rightarrow>
                       (case file_write f (start_time @ py_str '' --> '' @ end_time @
                                           py_str ''\<newline>'') of
                          Inl e \<Rightarrow> Inl e
                        | Inr f \<Rightarrow>
                            (case file_write f (text @ py_str ''\<newline>\<newline>'') of
                               Inl e \<Rightarrow> Inl e
                             | Inr f \<Rightarrow> write_segments (i + 1) rest f)))))"

definition create_srt :: "segment list \<Rightarrow> py_error + pystr" where
  \<comment> \<open>The text the function leaves in the file it opened for writing, or the error
      it raises; opening the file is outside the model.\<close>
  "create_srt segments = write_segments 1 segments []"

definition build_document :: "segment list \<Rightarrow> py_error + pystr" where
  \<comment> \<open>\<^verbatim>\<open>handle_video\<close> (lines 235--243): the segments pass the timing loop, then \<^verbatim>\<open>create_srt\<close>.\<close>
  "build_document segments = create_srt (refine_timing segments)"

section \<open>Rounding to the nearest float\<close>

lemma bitlen_rat_bounds:
  assumes "0 < n"
  shows "(2::rat) powi (bitlen n - 1) \<le> of_int n" "of_int n < (2::rat) powi (bitlen n)"
proof -
  have b1: "1 \<le> bitlen n"
    using assms bitlen_eq_zero_iff [of n] bitlen_nonneg [of n] by linarith
  from bitlen_bounds [OF assms]
  have a: "(2::int) ^ nat (bitlen n - 1) \<le> n" "n < 2 ^ nat (bitlen n)" by simp_all
  have "(of_int (2 ^ nat (bitlen n - 1)) :: rat) \<le> of_int n"
    using a(1) by (simp only: of_int_le_iff)
  then show "(2::rat) powi (bitlen n - 1) \<le> of_int n"
    using b1 by (simp add: power_int_nonneg_exp)
  have "(of_int n :: rat) < of_int (2 ^ nat (bitlen n))"
    using a(2) by (simp only: of_int_less_iff)
  then show "of_int n < (2::rat) powi (bitlen n)"
    using b1 by (simp add: power_int_nonneg_exp)
qed

lemma quotient_bitlen_bounds:
  assumes "0 < x" "quotient_of x = (p, q)"
  shows "2 powi (bitlen p - bitlen q - 1) \<le> x" "x < 2 powi (bitlen p - bitlen q + 1)"
proof -
  have q: "0 < q" using assms(2) by (rule quotient_of_denom_pos)
  have x: "x = of_int p / of_int q" using assms(2) by (rule quotient_of_div)
  have p: "0 < p" using assms(1) q x by (simp add: zero_less_divide_iff)
  note P = bitlen_rat_bounds [OF p] and Q = bitlen_rat_bounds [OF q]
  have q': "(0::rat) < of_int q" using q by simp
  have pw: "(0::rat) < 2 powi k" for k by simp
  have e1: "2 powi (bitlen p - bitlen q - 1) = (2::rat) powi (bitlen p - 1) / 2 powi (bitlen q)"
    by (simp add: power_int_diff)
  have e2: "2 powi (bitlen p - bitlen q + 1) = (2::rat) powi (bitlen p) / 2 powi (bitlen q - 1)"
    by (simp add: power_int_diff power_int_add)
  have "(2::rat) powi (bitlen p - 1) / 2 powi (bitlen q) \<le> of_int p / of_int q"
    using P(1) Q(2) q' p
    by (intro frac_le) (auto intro: less_imp_le)
  then show "2 powi (bitlen p - bitlen q - 1) \<le> x" by (simp only: e1 x)
  have "of_int p / of_int q < (2::rat) powi (bitlen p) / 2 powi (bitlen q - 1)"
    using P(2) Q(1) q' pw [of "bitlen q - 1"] p
    by (intro frac_less) auto
  then show "x < 2 powi (bitlen p - bitlen q + 1)" by (simp only: e2 x)
qed

lemma float_exponent_cases:
  assumes "x \<noteq> 0"
  obtains e where "float_exponent x = max (- 1022) e" "2 powi e \<le> \<bar>x\<bar>" "\<bar>x\<bar> < 2 powi (e + 1)"
proof -
  from assms have pos: "0 < \<bar>x\<bar>" by simp
  obtain p q where pq: "quotient_of \<bar>x\<bar> = (p, q)" by (cases "quotient_of \<bar>x\<bar>")
  note B = quotient_bitlen_bounds [OF pos pq]
  define e where "e = (if 2 powi (bitlen p - bitlen q) \<le> \<bar>x\<bar> then bitlen p - bitlen q else bitlen p - bitlen q - 1)"
  have "float_exponent x = max (- 1022) e"
    by (simp add: float_exponent_def pq e_def)
  moreover have "2 powi e \<le> \<bar>x\<bar>"
    using B(1) by (auto simp: e_def)
  moreover have "\<bar>x\<bar> < 2 powi (e + 1)"
    using B(2) by (auto simp: e_def)
  ultimately show thesis by (rule that)
qed

lemma two_powi_less_cancel: "(2::rat) powi a < 2 powi b \<Longrightarrow> a < b"
proof (rule ccontr)
  assume "(2::rat) powi a < 2 powi b" "\<not> a < b"
  moreover from \<open>\<not> a < b\<close> have "(2::rat) powi b \<le> 2 powi a"
    by (intro power_int_increasing) auto
  ultimately show False by simp
qed

lemma float_exponent_less:
  assumes "x \<noteq> 0" "\<bar>x\<bar> < 2 powi k" "- 1022 < k"
  shows "float_exponent x < k"
proof -
  from assms(1) obtain e where e: "float_exponent x = max (- 1022) e" "2 powi e \<le> \<bar>x\<bar>"
    by (rule float_exponent_cases)
  from e(2) assms(2) have "(2::rat) powi e < 2 powi k" by simp
  then have "e < k" by (rule two_powi_less_cancel)
  with assms(3) show ?thesis by (simp add: e(1))
qed

lemma float_exponent_ge:
  assumes "x \<noteq> 0" "2 powi k \<le> \<bar>x\<bar>"
  shows "k \<le> float_exponent x"
proof -
  from assms(1) obtain e where e: "float_exponent x = max (- 1022) e" "\<bar>x\<bar> < 2 powi (e + 1)"
    by (rule float_exponent_cases)
  from e(2) assms(2) have "(2::rat) powi k < 2 powi (e + 1)" by simp
  then have "k < e + 1" by (rule two_powi_less_cancel)
  then show ?thesis by (simp add: e(1))
qed

lemma round_half_even_near: "\<bar>of_int (round_half_even z) - z\<bar> \<le> 1 / 2"
proof -
  have "of_int \<lfloor>z\<rfloor> \<le> z" "z < of_int \<lfloor>z\<rfloor> + 1" by linarith+
  then show ?thesis
    unfolding round_half_even_def Let_def by (auto simp: abs_le_iff)
qed

lemma round_half_even_floor: "z - of_int \<lfloor>z\<rfloor> < 1 / 2 \<Longrightarrow> round_half_even z = \<lfloor>z\<rfloor>"
  by (simp add: round_half_even_def Let_def)

lemma round_double_error:
  "\<bar>round_double x - x\<bar> \<le> 2 powi (float_exponent x - 52) / 2"
proof (cases "x = 0")
  case True
  then show ?thesis by (simp add: round_double_def)
next
  case False
  define u :: rat where "u = 2 powi (float_exponent x - 52)"
  have u: "0 < u" by (simp add: u_def)
  have "round_double x - x = (of_int (round_half_even (x / u)) - x / u) * u"
    using False u by (simp add: round_double_def u_def [symmetric] Let_def algebra_simps)
  then have "\<bar>round_double x - x\<bar> = \<bar>of_int (round_half_even (x / u)) - x / u\<bar> * u"
    using u by (simp add: abs_mult)
  also have "\<dots> \<le> 1 / 2 * u"
    using u round_half_even_near [of "x / u"] by (intro mult_right_mono) auto
  finally show ?thesis by (simp add: u_def)
qed

lemma float_add_one_greater:
  assumes "0 \<le> x" "x < 2 ^ 53"
  shows "x < float_add x 1"
proof (cases "x + 1 < 2 ^ 53")
  case True
  have nz: "x + 1 \<noteq> 0" using assms(1) by simp
  have "float_exponent (x + 1) < 53"
    using nz True assms(1) by (intro float_exponent_less) auto
  then have "(2::rat) powi (float_exponent (x + 1) - 52) \<le> 2 powi 0"
    by (intro power_int_increasing) auto
  with round_double_error [of "x + 1"] have "\<bar>round_double (x + 1) - (x + 1)\<bar> \<le> 1 / 2"
    by simp
  then show ?thesis unfolding float_add_def by linarith
next
  case False
  have nz: "x + 1 \<noteq> 0" using assms(1) by simp
  have "float_exponent (x + 1) < 54"
    using nz assms by (intro float_exponent_less) auto
  moreover have "53 \<le> float_exponent (x + 1)"
    using nz False assms(1) by (intro float_exponent_ge) auto
  ultimately have e: "float_exponent (x + 1) = 53" by simp
  have fl: "\<lfloor>(x + 1) / 2\<rfloor> = 2 ^ 52"
    using False assms by (intro floor_unique) auto
  have "round_half_even ((x + 1) / 2) = \<lfloor>(x + 1) / 2\<rfloor>"
    using assms by (intro round_half_even_floor) (simp add: fl)
  then have "round_double (x + 1) = 2 ^ 53"
    using nz by (simp add: round_double_def e fl)
  then show ?thesis using assms(2) by (simp add: float_add_def)
qed

section \<open>Text that UTF-8 can encode\<close>

lemma utf8_encodable_append:
  "utf8_encodable (a @ b) \<longleftrightarrow> utf8_encodable a \<and> utf8_encodable b"
  by (simp add: utf8_encodable_def)

lemma utf8_encodable_py_str: "utf8_encodable (py_str s)"
proof -
  have "\<not> is_surrogate (of_char c)" for c
    using nat_of_char_less_256 [of c] unfolding is_surrogate_def by linarith
  then show ?thesis by (simp add: utf8_encodable_def py_str_def list_all_iff)
qed

lemma file_write_encodable: "utf8_encodable s \<Longrightarrow> file_write f s = Inr (f @ s)"
  by (simp add: file_write_def)

section \<open>Evaluating the code on concrete inputs\<close>

lemma time_format_0: "time_format 0 = Inr (py_str ''00:00:00,000'')"
  by code_simp

lemma time_format_2: "time_format 2 = Inr (py_str ''00:00:02,000'')"
  by code_simp

lemma time_format_3: "time_format 3 = Inr (py_str ''00:00:03,000'')"
  by code_simp

lemma clean_text_Hi: "clean_text (py_str ''Hi'') = py_str ''Hi''"
  by (simp add: clean_text_def str_strip_def isspace_def py_str_def str_replace_def)

lemma clean_text_Bye: "clean_text (py_str ''Bye'') = py_str ''Bye''"
  by (simp add: clean_text_def str_strip_def isspace_def py_str_def str_replace_def)

lemma str_of_int_1_2: "str_of_int 1 = py_str ''1''" "str_of_int 2 = py_str ''2''"
  by (simp_all add: str_of_int_def py_str_def digits.simps)

lemma create_srt_Hi_Bye:
  "create_srt [\<lparr>seg_start = 0, seg_end = 2, seg_text = py_str ''Hi''\<rparr>,
               \<lparr>seg_start = 2, seg_end = 3, seg_text = py_str ''Bye''\<rparr>] =
     Inr (py_str ''1\<newline>00:00:00,000 --> 00:00:02,000\<newline>Hi\<newline>\<newline>2\<newline>00:00:02,000 --> 00:00:03,000\<newline>Bye\<newline>\<newline>'')"
  by (simp add: create_srt_def time_format_0 time_format_2 time_format_3
        clean_text_Hi clean_text_Bye str_of_int_1_2 file_write_encodable
        utf8_encodable_append utf8_encodable_py_str)
    (simp add: py_str_def)

lemma refine_timing_Hi_Bye:
  "refine_timing [\<lparr>seg_start = 0, seg_end = 2, seg_text = a\<rparr>,
                  \<lparr>seg_start = 2, seg_end = 3, seg_text = b\<rparr>] =
     [\<lparr>seg_start = 0, seg_end = 2, seg_text = a\<rparr>, \<lparr>seg_start = 2, seg_end = 3, seg_text = b\<rparr>]"
  by (simp add: refine_timing_def normalize_segment_def)

text \<open>
  C1. The two segments \<open>{start: 0, end: 2, text: "Hi"}\<close> and
  \<open>{start: 2, end: 3, text: "Bye"}\<close> give exactly the two four-line records
  \<open>1 / 00:00:00,000 --> 00:00:02,000 / Hi / blank\<close> and
  \<open>2 / 00:00:02,000 --> 00:00:03,000 / Bye / blank\<close>, in input order: both from
  \<^verbatim>\<open>create_srt\<close> alone and from the timing loop followed by \<^verbatim>\<open>create_srt\<close>.
\<close>

theorem build_document_two_segments:
  "build_document [\<lparr>seg_start = 0, seg_end = 2, seg_text = py_str ''Hi''\<rparr>,
                   \<lparr>seg_start = 2, seg_end = 3, seg_text = py_str ''Bye''\<rparr>] =
     Inr (py_str ''1\<newline>00:00:00,000 --> 00:00:02,000\<newline>Hi\<newline>\<newline>2\<newline>00:00:02,000 --> 00:00:03,000\<newline>Bye\<newline>\<newline>'') \<and>
   create_srt [\<lparr>seg_start = 0, seg_end = 2, seg_text = py_str ''Hi''\<rparr>,
               \<lparr>seg_start = 2, seg_end = 3, seg_text = py_str ''Bye''\<rparr>] =
     Inr (py_str ''1\<newline>00:00:00,000 --> 00:00:02,000\<newline>Hi\<newline>\<newline>2\<newline>00:00:02,000 --> 00:00:03,000\<newline>Bye\<newline>\<newline>'')"
  unfolding build_document_def refine_timing_Hi_Bye using create_srt_Hi_Bye by simp

text \<open>
  C3. \<^verbatim>\<open>"Hello...world.."\<close> is cleaned to \<^verbatim>\<open>"Hello"\<close>, the ellipsis U+2026,
  \<^verbatim>\<open>"world."\<close>: the text is stripped, then every \<^verbatim>\<open>"..."\<close> becomes the ellipsis,
  then every remaining \<^verbatim>\<open>".."\<close> becomes one period. The first equation is that order
  for every text.
\<close>

theorem clean_text_order:
  "clean_text t =
     str_replace (str_replace (str_strip t) (py_str ''...'') [ellipsis]) (py_str ''..'') (py_str ''.'') \<and>
   clean_text (py_str ''Hello...world..'') = py_str ''Hello'' @ [ellipsis] @ py_str ''world.'' \<and>
   clean_text (py_str ''  Hello...world..  '') = py_str ''Hello'' @ [ellipsis] @ py_str ''world.''"
  by (simp add: clean_text_def)
    (simp add: str_strip_def isspace_def py_str_def str_replace_def)


text \<open>
  C8. With no segments \<^verbatim>\<open>create_srt\<close> writes nothing and returns normally: the
  result is the empty text, not an error.
\<close>

theorem create_srt_empty: "create_srt [] = Inr [] \<and> build_document [] = Inr []"
  by (simp add: build_document_def refine_timing_def create_srt_def)

text \<open>
  C2. The hours field is \<^verbatim>\<open>td.seconds // 3600\<close>, and \<^verbatim>\<open>td.seconds\<close> leaves the
  days out, so the hours wrap at 24: 360000 seconds (100 hours) are formatted as
  \<open>04:00:00,000\<close>, not as \<open>100:00:00,000\<close>, and 86400 seconds as \<open>00:00:00,000\<close>.
\<close>

theorem time_format_100_hours:
  "time_format 360000 = Inr (py_str ''04:00:00,000'') \<and>
   time_format 360000 \<noteq> Inr (py_str ''100:00:00,000'') \<and>
   time_format 86400 = time_format 0"
  by code_simp

section \<open>The timing loop\<close>

lemma float_add_0_1: "float_add 0 1 = 1"
  by code_simp


text \<open>
  C4, as amended. For every segment whose start is below \<open>2\<^sup>5\<^sup>3\<close> seconds, whatever
  its end, the timing loop leaves \<open>start \<ge> 0\<close> and \<open>end > start\<close>; this covers a
  negative start together with an end at or below the clamped start. From
  \<open>2\<^sup>5\<^sup>3\<close> on the float sum \<^verbatim>\<open>start + 1\<close> may round back to \<open>start\<close>.
\<close>

theorem normalize_segment_valid:
  assumes "seg_start s < 2 ^ 53"
  shows "0 \<le> seg_start (normalize_segment s) \<and>
         seg_start (normalize_segment s) < seg_end (normalize_segment s)"
proof (cases "seg_start s < 0")
  case True
  then show ?thesis
    by (simp add: normalize_segment_def Let_def float_add_0_1)
next
  case False
  then have "seg_start s < float_add (seg_start s) 1"
    using assms by (intro float_add_one_greater) auto
  with False show ?thesis
    by (simp add: normalize_segment_def Let_def)
qed

theorem normalize_segment_valid_witness:
  "(- 5 :: rat) < 2 ^ 53 \<and>
   0 \<le> seg_start (normalize_segment \<lparr>seg_start = - 5, seg_end = - 7, seg_text = []\<rparr>) \<and>
   seg_start (normalize_segment \<lparr>seg_start = - 5, seg_end = - 7, seg_text = []\<rparr>) <
   seg_end (normalize_segment \<lparr>seg_start = - 5, seg_end = - 7, seg_text = []\<rparr>)"
  using normalize_segment_valid [of "\<lparr>seg_start = - 5, seg_end = - 7, seg_text = []\<rparr>"]
  by simp

text \<open>
  The segment with start \<open>2\<^sup>5\<^sup>3 = 9007199254740992\<close> and end \<open>0\<close>, both floats:
  the loop sets the end to \<^verbatim>\<open>start + 1\<close>, which as a float is \<open>2\<^sup>5\<^sup>3\<close> again, so
  the end is not greater than the start.
\<close>

theorem normalize_segment_2_53:
  "is_double 9007199254740992 \<and> is_double 0 \<and>
   seg_start (normalize_segment \<lparr>seg_start = 9007199254740992, seg_end = 0, seg_text = []\<rparr>) =
     9007199254740992 \<and>
   seg_end (normalize_segment \<lparr>seg_start = 9007199254740992, seg_end = 0, seg_text = []\<rparr>) =
     9007199254740992 \<and>
   \<not> seg_start (normalize_segment \<lparr>seg_start = 9007199254740992, seg_end = 0, seg_text = []\<rparr>) <
       seg_end (normalize_segment \<lparr>seg_start = 9007199254740992, seg_end = 0, seg_text = []\<rparr>)"
  by code_simp

text \<open>
  C5. A segment with \<open>start \<ge> 0\<close> and \<open>end > start\<close> leaves the timing loop as it
  entered.
\<close>

theorem normalize_segment_identity:
  "0 \<le> seg_start s \<Longrightarrow> seg_start s < seg_end s \<Longrightarrow> normalize_segment s = s"
  by (simp add: normalize_segment_def Let_def)

theorem normalize_segment_identity_witness:
  "(0 :: rat) \<le> seg_start \<lparr>seg_start = 0, seg_end = 2, seg_text = py_str ''Hi''\<rparr> \<and>
   seg_start \<lparr>seg_start = 0, seg_end = 2, seg_text = py_str ''Hi''\<rparr> <
   seg_end \<lparr>seg_start = 0, seg_end = 2, seg_text = py_str ''Hi''\<rparr> \<and>
   normalize_segment \<lparr>seg_start = 0, seg_end = 2, seg_text = py_str ''Hi''\<rparr> =
     \<lparr>seg_start = 0, seg_end = 2, seg_text = py_str ''Hi''\<rparr>"
  using normalize_segment_identity [of "\<lparr>seg_start = 0, seg_end = 2, seg_text = py_str ''Hi''\<rparr>"]
  by simp



section \<open>Cleaning the text\<close>

lemma replace_from_no_match:
  "\<not> sublist old s \<Longrightarrow> replace_from old new s = s"
  by (induction s) (auto simp: sublist_Cons_right)

lemma replace_from_hd:
  "s \<noteq> [] \<Longrightarrow> new \<noteq> [] \<Longrightarrow>
   replace_from old new s \<noteq> [] \<and>
   (hd (replace_from old new s) = hd s \<or> hd (replace_from old new s) = hd new)"
  by (cases s) auto

lemma replace_from_last:
  "s \<noteq> [] \<Longrightarrow> new \<noteq> [] \<Longrightarrow>
   last (replace_from old new s) = last s \<or> last (replace_from old new s) = last new"
proof (induction old new s rule: replace_from.induct)
  case (1 old new)
  then show ?case by simp
next
  case (2 old new c cs)
  show ?case
  proof (cases "prefix old (c # cs)")
    case True
    show ?thesis
    proof (cases "drop (length old - 1) cs = []")
      case True
      with \<open>prefix old (c # cs)\<close> show ?thesis using 2(4) by simp
    next
      case False
      then have "replace_from old new (drop (length old - 1) cs) \<noteq> []"
        using replace_from_hd 2(4) by blast
      moreover have "cs \<noteq> []" using False by auto
      then have "last (drop (length old - 1) cs) = last (c # cs)"
        using False by (simp add: last_drop)
      ultimately show ?thesis
        using 2(1) [OF True False 2(4)] True by auto
    qed
  next
    case False
    show ?thesis
    proof (cases "cs = []")
      case True
      with False show ?thesis by simp
    next
      case nonempty: False
      then have "replace_from old new cs \<noteq> []"
        using replace_from_hd 2(4) by blast
      then show ?thesis
        using 2(2) [OF False nonempty 2(4)] False nonempty by auto
    qed
  qed
qed

lemma stripped_replace_from:
  assumes "stripped s" "new \<noteq> []" "\<not> isspace (hd new)" "\<not> isspace (last new)"
  shows "stripped (replace_from old new s)"
proof (cases "s = []")
  case True
  then show ?thesis by (simp add: stripped_def)
next
  case False
  with assms(1) have "\<not> isspace (hd s)" "\<not> isspace (last s)"
    by (auto simp: stripped_def)
  then show ?thesis
    using replace_from_hd [OF False assms(2), of old] replace_from_last [OF False assms(2), of old] assms(3,4)
    by (auto simp: stripped_def)
qed

lemma stripped_str_strip: "stripped (str_strip s)"
proof -
  define a where "a = dropWhile isspace s"
  define b where "b = dropWhile isspace (rev a)"
  have s: "str_strip s = rev b" by (simp add: str_strip_def a_def b_def)
  show ?thesis
  proof (cases "b = []")
    case True
    then show ?thesis by (simp add: s stripped_def)
  next
    case False
    then have hb: "\<not> isspace (hd b)" unfolding b_def by (rule hd_dropWhile)
    have "suffix b (rev a)" unfolding b_def by (rule suffix_dropWhile)
    then obtain p where p: "rev a = p @ b" by (auto simp: suffix_def)
    then have "last (rev a) = last b" using False by simp
    moreover have "a \<noteq> []" using p False by auto
    ultimately have lb: "last b = hd a" by (simp add: last_rev)
    have "\<not> isspace (hd a)" using \<open>a \<noteq> []\<close> unfolding a_def by (rule hd_dropWhile)
    with hb lb False show ?thesis by (simp add: s stripped_def hd_rev last_rev)
  qed
qed

lemma str_strip_stripped: "stripped s \<Longrightarrow> str_strip s = s"
proof (cases "s = []")
  case True
  then show ?thesis by (simp add: str_strip_def)
next
  case False
  assume "stripped s"
  with False have h: "\<not> isspace (hd s)" "\<not> isspace (last s)" by (auto simp: stripped_def)
  have 1: "dropWhile isspace s = s" using False h(1) by (cases s) auto
  have 2: "dropWhile isspace (rev s) = rev s"
    using False h(2) by (cases "rev s") (auto simp: last_rev [symmetric] hd_rev)
  show ?thesis by (simp add: str_strip_def 1 2)
qed


lemma prefix_Cons_left: "prefix (x # xs) ys \<longleftrightarrow> (\<exists>zs. ys = x # zs \<and> prefix xs zs)"
  by (cases ys) auto

lemma ellipsis_neq_dot: "ellipsis \<noteq> 46"
  by (simp add: ellipsis_def)

lemma dots3_head:
  "prefix [46] (replace_from [46, 46, 46] [ellipsis] s) \<Longrightarrow> prefix [46] s"
  by (cases s) (auto simp: ellipsis_neq_dot split: if_splits)

lemma dots3_head2:
  assumes a: "prefix [46, 46] (replace_from [46, 46, 46] [ellipsis] s)"
  shows "prefix [46, 46] s"
proof (cases s)
  case Nil
  then show ?thesis using a by simp
next
  case (Cons c cs)
  show ?thesis
  proof (cases "prefix [46, 46, 46] (c # cs)")
    case True
    then show ?thesis using Cons by (auto simp: prefix_Cons_left)
  next
    case False
    with a Cons have "c = 46" "prefix [46] (replace_from [46, 46, 46] [ellipsis] cs)"
      by auto
    then show ?thesis using Cons dots3_head [of cs] by auto
  qed
qed

lemma dots3_not_prefix:
  "\<not> prefix [46, 46, 46] (replace_from [46, 46, 46] [ellipsis] s)"
proof (cases s)
  case Nil
  then show ?thesis by simp
next
  case (Cons c cs)
  show ?thesis
  proof (cases "prefix [46, 46, 46] (c # cs)")
    case True
    then show ?thesis using Cons by (auto simp: ellipsis_neq_dot)
  next
    case False
    show ?thesis
    proof
      assume "prefix [46, 46, 46] (replace_from [46, 46, 46] [ellipsis] s)"
      with False Cons have "c = 46" "prefix [46, 46] (replace_from [46, 46, 46] [ellipsis] cs)"
        by auto
      then have "prefix [46, 46, 46] (c # cs)" using dots3_head2 [of cs] by auto
      with False show False by simp
    qed
  qed
qed

lemma dots3_removed:
  "\<not> sublist [46, 46, 46] (replace_from [46, 46, 46] [ellipsis] s)"
proof (induction "[46, 46, 46] :: pystr" "[ellipsis]" s rule: replace_from.induct)
  case 1
  then show ?case by simp
next
  case (2 c cs)
  show ?case
  proof (cases "prefix [46, 46, 46] (c # cs)")
    case True
    then show ?thesis
      using 2(1) by (auto simp: sublist_Cons_right ellipsis_neq_dot)
  next
    case False
    have "\<not> prefix [46, 46, 46] (replace_from [46, 46, 46] [ellipsis] (c # cs))"
      by (rule dots3_not_prefix)
    then show ?thesis
      using 2(2) False by (auto simp: sublist_Cons_right)
  qed
qed

lemma dots2_head:
  "prefix [46] (replace_from [46, 46] [46] s) \<Longrightarrow> prefix [46] s"
  by (cases s) (auto split: if_splits)

lemma dots2_not_prefix:
  assumes "\<not> prefix [46, 46, 46] s"
  shows "\<not> prefix [46, 46] (replace_from [46, 46] [46] s)"
proof (cases s)
  case Nil
  then show ?thesis by simp
next
  case (Cons c cs)
  show ?thesis
  proof (cases "prefix [46, 46] (c # cs)")
    case True
    then obtain r where r: "cs = 46 # r" "c = 46" by (cases cs) auto
    with assms Cons have "\<not> prefix [46] r" by auto
    then have "\<not> prefix [46] (replace_from [46, 46] [46] r)" using dots2_head by blast
    then show ?thesis using Cons r by auto
  next
    case False
    show ?thesis
    proof
      assume "prefix [46, 46] (replace_from [46, 46] [46] s)"
      with False Cons have "c = 46" "prefix [46] (replace_from [46, 46] [46] cs)" by auto
      then have "prefix [46, 46] (c # cs)" using dots2_head [of cs] by auto
      with False show False by simp
    qed
  qed
qed

lemma dots2_removed:
  "\<not> sublist [46, 46, 46] s \<Longrightarrow> \<not> sublist [46, 46] (replace_from [46, 46] [46] s)"
proof (induction "[46, 46] :: pystr" "[46] :: pystr" s rule: replace_from.induct)
  case 1
  then show ?case by simp
next
  case (2 c cs)
  have np: "\<not> prefix [46, 46, 46] (c # cs)" and ns: "\<not> sublist [46, 46, 46] cs"
    using 2(3) by (auto simp: sublist_Cons_right)
  have head: "\<not> prefix [46, 46] (replace_from [46, 46] [46] (c # cs))"
    using np by (rule dots2_not_prefix)
  show ?case
  proof (cases "prefix [46, 46] (c # cs)")
    case True
    have "sublist (drop 1 cs) cs" by (rule sublist_drop)
    then have "\<not> sublist [46, 46, 46] (drop 1 cs)"
      using ns sublist_order.order_trans by blast
    then have "\<not> sublist [46, 46] (replace_from [46, 46] [46] (drop 1 cs))"
      using 2(1) True by simp
    then show ?thesis using head True by (auto simp: sublist_Cons_right)
  next
    case False
    then show ?thesis using head 2(2) ns by (auto simp: sublist_Cons_right)
  qed
qed

lemma clean_text_alt:
  "clean_text t = replace_from [46, 46] [46] (replace_from [46, 46, 46] [ellipsis] (str_strip t))"
  by (simp add: clean_text_def str_replace_def py_str_def)

lemma not_isspace_ellipsis: "\<not> isspace ellipsis" "\<not> isspace 46"
  by (simp_all add: isspace_def ellipsis_def)

lemma clean_text_stripped: "stripped (clean_text t)"
  unfolding clean_text_alt
  by (intro stripped_replace_from stripped_str_strip) (simp_all add: not_isspace_ellipsis)

lemma clean_text_no_dots2: "\<not> sublist [46, 46] (clean_text t)"
  unfolding clean_text_alt by (intro dots2_removed dots3_removed)

lemma clean_text_no_dots3: "\<not> sublist [46, 46, 46] (clean_text t)"
proof
  assume "sublist [46, 46, 46] (clean_text t)"
  moreover have "sublist [46, 46] [46, 46, 46 :: nat]"
    by (simp add: sublist_Cons_right)
  ultimately have "sublist [46, 46] (clean_text t)"
    using sublist_order.order_trans by blast
  then show False using clean_text_no_dots2 by blast
qed

text \<open>
  C10. Cleaning a cleaned text changes nothing: the cleaned text has no whitespace at
  either end (stripping it again returns it), no \<^verbatim>\<open>"..."\<close> and no \<^verbatim>\<open>".."\<close>.
\<close>

theorem clean_text_idempotent:
  "clean_text (clean_text t) = clean_text t \<and>
   str_strip (clean_text t) = clean_text t \<and>
   \<not> sublist (py_str ''...'') (clean_text t) \<and>
   \<not> sublist (py_str ''..'') (clean_text t)"
proof -
  have 1: "str_strip (clean_text t) = clean_text t"
    using clean_text_stripped by (rule str_strip_stripped)
  have "clean_text (clean_text t) =
    replace_from [46, 46] [46] (replace_from [46, 46, 46] [ellipsis] (clean_text t))"
    by (simp only: clean_text_alt [of "clean_text t"] 1)
  also have "\<dots> = replace_from [46, 46] [46] (clean_text t)"
    by (simp only: replace_from_no_match [OF clean_text_no_dots3])
  also have "\<dots> = clean_text t"
    by (simp only: replace_from_no_match [OF clean_text_no_dots2])
  finally show ?thesis
    using 1 clean_text_no_dots2 [of t] clean_text_no_dots3 [of t] by (simp add: py_str_def)
qed

section \<open>The range of \<^verbatim>\<open>timedelta\<close>\<close>

lemma round_half_even_bound:
  assumes "\<bar>z\<bar> < of_int m + 1 / 2"
  shows "\<bar>round_half_even z\<bar> \<le> m"
proof -
  have "\<bar>(of_int (round_half_even z) :: rat)\<bar> < of_int m + 1"
    using round_half_even_near [of z] assms by linarith
  then have "(of_int \<bar>round_half_even z\<bar> :: rat) < of_int (m + 1)"
    by simp
  then have "\<bar>round_half_even z\<bar> < m + 1"
    by (simp only: of_int_less_iff)
  then show ?thesis by simp
qed

lemma round_double_bound:
  assumes "\<bar>p\<bar> < 2 powi k" "- 1022 < k" "k \<le> 52"
  shows "\<bar>round_double p\<bar> < \<bar>p\<bar> + 1 / 2"
proof (cases "p = 0")
  case True
  then show ?thesis by (simp add: round_double_def)
next
  case False
  then have "float_exponent p < k"
    using assms(1,2) by (rule float_exponent_less)
  then have "(2::rat) powi (float_exponent p - 52) \<le> 2 powi (- 1)"
    using assms(3) by (intro power_int_increasing) auto
  with round_double_error [of p] have "\<bar>round_double p - p\<bar> \<le> 1 / 4"
    by simp
  then show ?thesis by linarith
qed

lemma trunc_near: "\<bar>x - of_int (trunc x)\<bar> < 1"
  unfolding trunc_def by (auto simp: abs_less_iff) linarith+

lemma trunc_bound:
  assumes "\<bar>x\<bar> < of_int b"
  shows "\<bar>trunc x\<bar> \<le> b - 1"
proof (cases "0 \<le> x")
  case True
  then have "0 \<le> \<lfloor>x\<rfloor>" by simp
  moreover have "\<lfloor>x\<rfloor> < b" using assms True by (simp add: floor_less_iff)
  ultimately show ?thesis using True by (simp add: trunc_def)
next
  case False
  then have "\<lceil>x\<rceil> \<le> 0" by (simp add: ceiling_le_iff)
  moreover have "- b < \<lceil>x\<rceil>" using assms False by (simp add: less_ceiling_iff)
  ultimately show ?thesis using False by (simp add: trunc_def)
qed

lemma total_microseconds_bound:
  assumes "\<bar>x\<bar> < of_int b"
  shows "\<bar>total_microseconds x\<bar> \<le> b * 1000000"
proof -
  define f where "f = x - of_int (trunc x)"
  have f: "\<bar>f\<bar> < 1" unfolding f_def by (rule trunc_near)
  then have p: "\<bar>f * 1000000\<bar> < 1000000" by (simp add: abs_mult)
  then have "\<bar>f * 1000000\<bar> < 2 powi 20" by simp
  then have "\<bar>round_double (f * 1000000)\<bar> < \<bar>f * 1000000\<bar> + 1 / 2"
    by (rule round_double_bound) simp_all
  with p have "\<bar>float_mul f 1000000\<bar> < of_int 1000000 + 1 / 2"
    by (simp add: float_mul_def)
  then have "\<bar>round_half_even (float_mul f 1000000)\<bar> \<le> 1000000"
    by (rule round_half_even_bound)
  moreover have "\<bar>trunc x\<bar> \<le> b - 1" using assms by (rule trunc_bound)
  ultimately show ?thesis
    unfolding total_microseconds_def Let_def f_def [symmetric] by linarith
qed

lemma timedelta_seconds_in_range:
  assumes "\<bar>x\<bar> < 86399999913600"
  shows "\<exists>td. timedelta_seconds x = Inr td"
proof -
  have "\<bar>x\<bar> < of_int 86399999913600" using assms by simp
  then have "\<bar>total_microseconds x\<bar> \<le> 86399999913600 * 1000000"
    by (rule total_microseconds_bound)
  then have "- 999999999 \<le> total_microseconds x div 86400000000"
    "total_microseconds x div 86400000000 \<le> 999999999"
    by (simp_all add: abs_le_iff) linarith+
  then show ?thesis by (simp add: timedelta_seconds_def Let_def)
qed

lemma time_format_in_range:
  "\<bar>x\<bar> < 86399999913600 \<Longrightarrow> \<exists>t. time_format x = Inr t"
  using timedelta_seconds_in_range [of x] by (auto simp: time_format_def Let_def)

lemma normalize_segment_in_range:
  assumes "\<bar>seg_start s\<bar> < 86399999913598" "\<bar>seg_end s\<bar> < 86399999913600"
  shows "\<bar>seg_start (normalize_segment s)\<bar> < 86399999913600 \<and>
         \<bar>seg_end (normalize_segment s)\<bar> < 86399999913600"
proof -
  define a where "a = (if seg_start s < 0 then 0 else seg_start s)"
  have a: "0 \<le> a" "a < 86399999913598" using assms(1) by (auto simp: a_def)
  then have "\<bar>a + 1\<bar> < 2 powi 47" by simp
  then have "\<bar>round_double (a + 1)\<bar> < \<bar>a + 1\<bar> + 1 / 2"
    by (rule round_double_bound) simp_all
  then have "\<bar>float_add a 1\<bar> < 86399999913600"
    using a by (simp add: float_add_def)
  then show ?thesis
    using assms a by (auto simp: normalize_segment_def Let_def a_def)
qed

section \<open>Finite floats stay finite\<close>

lemma float_exponent_lower_bound: "- 1022 \<le> float_exponent x"
  by (simp add: float_exponent_def Let_def split: prod.splits)

lemma float_exponent_normal:
  assumes "2 powi (- 1022) \<le> \<bar>x\<bar>"
  shows "2 powi float_exponent x \<le> \<bar>x\<bar>" "\<bar>x\<bar> < 2 powi (float_exponent x + 1)"
proof -
  have "(0::rat) < 2 powi (- 1022)" by simp
  with assms have nz: "x \<noteq> 0" by auto
  from nz obtain e where e: "float_exponent x = max (- 1022) e" "2 powi e \<le> \<bar>x\<bar>"
    "\<bar>x\<bar> < 2 powi (e + 1)"
    by (rule float_exponent_cases)
  have "- 1022 \<le> e"
  proof (rule ccontr)
    assume "\<not> - 1022 \<le> e"
    then have "(2::rat) powi (e + 1) \<le> 2 powi (- 1022)"
      by (intro power_int_increasing) auto
    with e(3) assms show False by linarith
  qed
  then have "float_exponent x = e" by (simp add: e(1))
  with e show "2 powi float_exponent x \<le> \<bar>x\<bar>" "\<bar>x\<bar> < 2 powi (float_exponent x + 1)"
    by simp_all
qed

lemma round_half_even_of_int: "round_half_even (of_int m) = m"
  by (simp add: round_half_even_def)

lemma round_half_even_ge: "of_int n \<le> z \<Longrightarrow> n \<le> round_half_even z"
proof -
  assume "of_int n \<le> z"
  then have "n \<le> \<lfloor>z\<rfloor>" by (simp add: le_floor_iff)
  moreover have "\<lfloor>z\<rfloor> \<le> round_half_even z"
    by (simp add: round_half_even_def Let_def)
  ultimately show ?thesis by simp
qed

lemma round_half_even_le: "z \<le> of_int n \<Longrightarrow> round_half_even z \<le> n"
proof (cases "z = of_int n")
  case True
  then show ?thesis by (simp add: round_half_even_of_int)
next
  case False
  assume "z \<le> of_int n"
  with False have "z < of_int n" by simp
  then have "\<lfloor>z\<rfloor> < n" by (simp add: floor_less_iff)
  moreover have "round_half_even z \<le> \<lfloor>z\<rfloor> + 1"
    by (simp add: round_half_even_def Let_def)
  ultimately show ?thesis by simp
qed

lemma round_double_idem:
  assumes "2 powi (- 1022) \<le> y"
  shows "round_double (round_double y) = round_double y"
proof -
  define e where "e = float_exponent y"
  define u :: rat where "u = 2 powi (e - 52)"
  define m where "m = round_half_even (y / u)"
  have "(0::rat) < 2 powi (- 1022)" by simp
  with assms have ypos: "0 < y" by linarith
  have u: "0 < u" by (simp add: u_def)
  have elow: "- 1022 \<le> e" unfolding e_def by (rule float_exponent_lower_bound)
  have pe: "(2::rat) powi e = 2 ^ 52 * u"
    unfolding u_def by (simp add: power_int_diff)
  have pe1: "(2::rat) powi (e + 1) = 2 ^ 53 * u"
    unfolding u_def by (simp add: power_int_diff power_int_add)
  have pe2: "(2::rat) powi (e + 2) = 2 ^ 54 * u"
    unfolding u_def by (simp add: power_int_diff power_int_add)
  have yb: "2 powi e \<le> y" "y < 2 powi (e + 1)"
    using float_exponent_normal [of y] assms ypos by (simp_all add: e_def)
  have r: "round_double y = of_int m * u"
    using ypos by (simp add: round_double_def e_def [symmetric] u_def [symmetric] m_def Let_def)
  have "of_int (2 ^ 52) \<le> y / u"
    using yb(1) u by (simp add: pe pos_le_divide_eq)
  then have mlow: "2 ^ 52 \<le> m" unfolding m_def by (rule round_half_even_ge)
  have "y / u \<le> of_int (2 ^ 53)"
    using yb(2) u by (simp add: pe1 pos_divide_le_eq)
  then have mup: "m \<le> 2 ^ 53" unfolding m_def by (rule round_half_even_le)
  have mpos: "(0::rat) < of_int m" using mlow by simp
  have rnz: "of_int m * u \<noteq> 0" using mpos u by simp
  have rabs: "\<bar>of_int m * u\<bar> = of_int m * u" using mpos u by (simp add: abs_mult)
  have rlow: "2 powi e \<le> \<bar>of_int m * u\<bar>"
  proof -
    have "(2::rat) ^ 52 \<le> of_int m" using mlow by (metis of_int_le_iff of_int_numeral of_int_power)
    then show ?thesis using u by (simp add: rabs pe)
  qed
  show ?thesis
  proof (cases "m = 2 ^ 53")
    case True
    have val: "of_int m * u = 2 powi (e + 1)" by (simp add: True pe1)
    have "e + 1 \<le> float_exponent (of_int m * u)"
      using rnz by (rule float_exponent_ge) (simp add: rabs val)
    moreover have "float_exponent (of_int m * u) < e + 2"
      using rnz
    proof (rule float_exponent_less)
      show "\<bar>of_int m * u\<bar> < 2 powi (e + 2)" using u by (simp add: rabs True pe2)
      show "- 1022 < e + 2" using elow by simp
    qed
    ultimately have e': "float_exponent (of_int m * u) = e + 1" by simp
    have u': "(2::rat) powi (e + 1 - 52) = 2 * u"
      unfolding u_def by (simp add: power_int_diff power_int_add)
    have q: "of_int m * u / (2 * u) = of_int (2 ^ 52)" using u by (simp add: True)
    have "round_double (of_int m * u) =
        of_int (round_half_even (of_int m * u / (2 * u))) * (2 * u)"
      using rnz by (simp only: round_double_def e' u' Let_def if_False)
    also have "\<dots> = of_int (2 ^ 52) * (2 * u)"
      by (simp only: q round_half_even_of_int)
    also have "\<dots> = of_int m * u"
      by (simp add: True)
    finally show ?thesis by (simp add: r)
  next
    case False
    with mup have "m < 2 ^ 53" by simp
    then have "(of_int m :: rat) < 2 ^ 53" by (metis of_int_less_iff of_int_numeral of_int_power)
    then have rup: "\<bar>of_int m * u\<bar> < 2 powi (e + 1)" using u by (simp add: rabs pe1)
    have "e \<le> float_exponent (of_int m * u)"
      using rnz rlow by (rule float_exponent_ge)
    moreover have "float_exponent (of_int m * u) < e + 1"
      using rnz rup by (rule float_exponent_less) (use elow in simp)
    ultimately have e': "float_exponent (of_int m * u) = e" by simp
    have "round_double (of_int m * u) = of_int (round_half_even (of_int m * u / u)) * u"
      using rnz by (simp only: round_double_def e' u_def [symmetric] Let_def if_False)
    also have "of_int m * u / u = of_int m"
      using u by simp
    finally show ?thesis by (simp add: r round_half_even_of_int)
  qed
qed


lemma is_double_float_add_one:
  assumes "is_double x" "0 \<le> x"
  shows "is_double (float_add x 1)"
proof -
  define U :: rat where "U = 2 ^ 971"
  have U: "4 \<le> U" by (simp add: U_def)
  have Upos: "0 < U" using U by linarith
  have p1024: "(2::rat) ^ 1024 = 9007199254740992 * U" by (simp add: U_def)
  have p1023: "(2::rat) powi 1023 = 4503599627370496 * U" by (simp add: U_def)
  have q1024: "(2::rat) powi 1024 = 9007199254740992 * U" by (simp add: U_def)
  have p971: "(2::rat) powi (1023 - 52) = U" by (simp add: U_def)
  have p970: "(2::rat) powi 970 \<le> U" by (simp add: U_def)
  from assms(1) have dx: "round_double x = x \<and> \<bar>x\<bar> < 2 ^ 1024"
    by (simp only: is_double_def)
  then have fx: "round_double x = x" by blast
  from dx have "\<bar>x\<bar> < 9007199254740992 * U" by (simp only: p1024)
  then have xb: "x < 9007199254740992 * U" by linarith
  have xM: "x \<le> 9007199254740991 * U"
  proof (cases "x < 4503599627370496 * U")
    case True
    then show ?thesis using U by linarith
  next
    case False
    then have xnz: "x \<noteq> 0" using U by linarith
    have "2 powi 1023 \<le> \<bar>x\<bar>" unfolding p1023 using False by linarith
    with xnz have "1023 \<le> float_exponent x" by (rule float_exponent_ge)
    moreover have "float_exponent x < 1024"
      using xnz
    proof (rule float_exponent_less)
      show "\<bar>x\<bar> < 2 powi 1024" unfolding q1024 using xb assms(2) by linarith
    qed simp
    ultimately have e: "float_exponent x = 1023" by simp
    define m where "m = round_half_even (x / U)"
    have "round_double x = of_int m * U"
      using xnz by (simp only: round_double_def e p971 Let_def if_False m_def)
    then have x: "x = of_int m * U" by (simp only: fx)
    have "(of_int m :: rat) < 9007199254740992"
    proof (rule ccontr)
      assume "\<not> (of_int m :: rat) < 9007199254740992"
      then have "9007199254740992 * U \<le> of_int m * U"
        using Upos by (intro mult_right_mono) simp_all
      with xb x show False by linarith
    qed
    then have "m < 9007199254740992" by simp
    then have "m \<le> 9007199254740991" by simp
    then have "(of_int m :: rat) \<le> 9007199254740991" by simp
    then have "of_int m * U \<le> 9007199254740991 * U"
      using Upos by (intro mult_right_mono) simp_all
    then show ?thesis by (simp only: x)
  qed
  define y where "y = x + 1"
  have y1: "1 \<le> y" using assms(2) by (simp add: y_def)
  then have ynz: "y \<noteq> 0" by simp
  have yM: "y \<le> 9007199254740991 * U + 1" using xM by (simp add: y_def)
  have lw: "2 powi (- 1022) \<le> y"
  proof -
    have "(2::rat) powi (- 1022) \<le> 2 powi 0" by (intro power_int_increasing) auto
    with y1 show ?thesis by simp
  qed
  have mag: "\<bar>round_double y\<bar> < 9007199254740992 * U"
  proof (cases "float_exponent y < 1023")
    case True
    then have "(2::rat) powi (float_exponent y - 52) \<le> 2 powi 970"
      by (intro power_int_increasing) auto
    with round_double_error [of y] p970 have err: "\<bar>round_double y - y\<bar> \<le> U / 2"
      by linarith
    have "\<bar>y\<bar> \<le> y" using y1 by simp
    with lw have "2 powi (- 1022) \<le> \<bar>y\<bar>" by linarith
    then have "\<bar>y\<bar> < 2 powi (float_exponent y + 1)"
      by (rule float_exponent_normal(2))
    also have "\<dots> \<le> 2 powi 1023"
      using True by (intro power_int_increasing) auto
    finally have "\<bar>y\<bar> < 4503599627370496 * U" by (simp only: p1023)
    with err U show ?thesis by linarith
  next
    case False
    have "float_exponent y < 1024"
      using ynz
    proof (rule float_exponent_less)
      show "\<bar>y\<bar> < 2 powi 1024" unfolding q1024 using yM y1 U by linarith
    qed simp
    with False have e: "float_exponent y = 1023" by simp
    define m where "m = round_half_even (y / U)"
    have r: "round_double y = of_int m * U"
      using ynz by (simp only: round_double_def e p971 Let_def if_False m_def)
    have "y / U \<le> (9007199254740991 * U + 1) / U"
      using yM Upos by (simp only: divide_right_mono less_imp_le)
    also have "\<dots> = 9007199254740991 + 1 / U"
      using Upos by (simp add: field_simps)
    also have "\<dots> < 9007199254740991 + 1 / 2"
    proof -
      have "1 / U < 1 / 2" using U Upos by (simp add: field_simps)
      then show ?thesis by simp
    qed
    finally have "y / U < of_int 9007199254740991 + 1 / 2" by simp
    moreover have "0 \<le> y / U" using y1 Upos by simp
    ultimately have "\<bar>y / U\<bar> < of_int 9007199254740991 + 1 / 2" by linarith
    then have "\<bar>m\<bar> \<le> 9007199254740991" unfolding m_def by (rule round_half_even_bound)
    then have "\<bar>of_int m :: rat\<bar> \<le> 9007199254740991" by linarith
    then have "\<bar>of_int m :: rat\<bar> * U \<le> 9007199254740991 * U"
      using Upos by (intro mult_right_mono) simp_all
    then have "\<bar>of_int m * U\<bar> \<le> 9007199254740991 * U"
      using Upos by (simp add: abs_mult)
    then show ?thesis unfolding r using Upos by linarith
  qed
  have "round_double (round_double y) = round_double y"
    using lw by (rule round_double_idem)
  with mag show ?thesis
    unfolding is_double_def float_add_def y_def [symmetric] p1024 by blast
qed

lemma is_double_0: "is_double 0"
  by (simp add: is_double_def round_double_def)

lemma is_double_normalize_segment:
  assumes "is_double (seg_start s)" "is_double (seg_end s)"
  shows "is_double (seg_start (normalize_segment s)) \<and> is_double (seg_end (normalize_segment s))"
proof -
  have "is_double (float_add 0 1)"
    using is_double_0 by (rule is_double_float_add_one) simp
  moreover have "0 \<le> seg_start s \<Longrightarrow> is_double (float_add (seg_start s) 1)"
    using assms(1) by (rule is_double_float_add_one)
  ultimately show ?thesis
    using assms is_double_0 by (auto simp: normalize_segment_def Let_def)
qed

section \<open>What the writes can encode\<close>

lemma utf8_encodable_subset:
  "utf8_encodable s \<Longrightarrow> set t \<subseteq> set s \<union> A \<Longrightarrow> (\<forall>c\<in>A. \<not> is_surrogate c) \<Longrightarrow> utf8_encodable t"
  by (auto simp: utf8_encodable_def list_all_iff)

lemma utf8_encodable_digits: "utf8_encodable (digits n)"
proof (induction n rule: digits.induct)
  case (1 n)
  show ?case
  proof (cases "n < 10")
    case True
    then show ?thesis
      by (subst digits.simps) (simp add: utf8_encodable_def is_surrogate_def)
  next
    case False
    have "n mod 10 < 10" by simp
    then have "\<not> is_surrogate (48 + n mod 10)" unfolding is_surrogate_def by linarith
    with False 1 show ?thesis
      by (subst digits.simps) (simp add: utf8_encodable_def)
  qed
qed

lemma utf8_encodable_str_of_int: "utf8_encodable (str_of_int i)"
  by (simp add: str_of_int_def utf8_encodable_digits utf8_encodable_append utf8_encodable_py_str)

lemma utf8_encodable_format_0d: "utf8_encodable (format_0d w i)"
proof -
  have "utf8_encodable (replicate k 48)" for k
    by (simp add: utf8_encodable_def list_all_iff is_surrogate_def)
  moreover have "utf8_encodable []"
    by (simp add: utf8_encodable_def)
  ultimately show ?thesis
    by (simp add: format_0d_def Let_def utf8_encodable_digits utf8_encodable_append
        utf8_encodable_py_str)
qed

lemma utf8_encodable_time_format: "time_format x = Inr t \<Longrightarrow> utf8_encodable t"
  by (auto simp: time_format_def Let_def utf8_encodable_format_0d utf8_encodable_append
      utf8_encodable_py_str split: sum.splits)

lemma set_str_strip: "set (str_strip s) \<subseteq> set s"
  by (auto simp: str_strip_def dest!: set_dropWhileD)

lemma set_replace_from: "set (replace_from old new s) \<subseteq> set s \<union> set new"
proof (induction old new s rule: replace_from.induct)
  case (1 old new)
  then show ?case by simp
next
  case (2 old new c cs)
  have "set (drop (length old - 1) cs) \<subseteq> set cs" by (rule set_drop_subset)
  with 2 show ?case by (cases "prefix old (c # cs)") auto
qed

lemma set_clean_text: "set (clean_text t) \<subseteq> set t \<union> {ellipsis, 46}"
proof -
  have "set (clean_text t) \<subseteq> set (replace_from [46, 46, 46] [ellipsis] (str_strip t)) \<union> {46}"
    unfolding clean_text_alt using set_replace_from [of "[46, 46]" "[46]"] by auto
  also have "\<dots> \<subseteq> set (str_strip t) \<union> {ellipsis} \<union> {46}"
    using set_replace_from [of "[46, 46, 46]" "[ellipsis]" "str_strip t"] by auto
  also have "\<dots> \<subseteq> set t \<union> {ellipsis, 46}"
    using set_str_strip [of t] by auto
  finally show ?thesis .
qed

lemma utf8_encodable_clean_text: "utf8_encodable t \<Longrightarrow> utf8_encodable (clean_text t)"
  by (rule utf8_encodable_subset [OF _ set_clean_text])
    (simp_all add: is_surrogate_def ellipsis_def)

lemma write_segments_in_range:
  "(\<forall>s\<in>set segs. \<bar>seg_start s\<bar> < 86399999913600 \<and> \<bar>seg_end s\<bar> < 86399999913600 \<and>
       utf8_encodable (seg_text s)) \<Longrightarrow>
   \<exists>doc. write_segments i segs f = Inr doc"
proof (induction segs arbitrary: i f)
  case Nil
  then show ?case by simp
next
  case (Cons s segs)
  obtain a where a: "time_format (seg_start s) = Inr a"
    using Cons.prems time_format_in_range [of "seg_start s"] by auto
  obtain b where b: "time_format (seg_end s) = Inr b"
    using Cons.prems time_format_in_range [of "seg_end s"] by auto
  have 1: "utf8_encodable (str_of_int i @ py_str ''\<newline>'')"
    by (simp add: utf8_encodable_append utf8_encodable_str_of_int utf8_encodable_py_str)
  have 2: "utf8_encodable (a @ py_str '' --> '' @ b @ py_str ''\<newline>'')"
    using utf8_encodable_time_format [OF a] utf8_encodable_time_format [OF b]
    by (simp add: utf8_encodable_append utf8_encodable_py_str)
  have 3: "utf8_encodable (clean_text (seg_text s) @ py_str ''\<newline>\<newline>'')"
    using Cons.prems utf8_encodable_clean_text [of "seg_text s"]
    by (simp add: utf8_encodable_append utf8_encodable_py_str)
  show ?case using Cons.IH Cons.prems by (simp add: a b Let_def file_write_encodable 1 2 3)
qed

lemma time_format_1: "time_format 1 = Inr (py_str ''00:00:01,000'')"
  by code_simp

lemma clean_text_surrogate: "clean_text [0xD800] = [0xD800]"
  by (simp add: clean_text_def str_strip_def isspace_def py_str_def str_replace_def)

lemma surrogate_not_encodable: "\<not> utf8_encodable [0xD800]"
  by (simp add: utf8_encodable_def is_surrogate_def)

lemma create_srt_surrogate:
  "create_srt [\<lparr>seg_start = 0, seg_end = 1, seg_text = [0xD800]\<rparr>] = Inl UnicodeEncodeError"
  by (simp add: create_srt_def time_format_0 time_format_1 clean_text_surrogate
      str_of_int_1_2 file_write_def utf8_encodable_append utf8_encodable_py_str
      surrogate_not_encodable)

lemma normalize_segment_surrogate:
  "normalize_segment \<lparr>seg_start = 0, seg_end = 1, seg_text = t\<rparr> =
     \<lparr>seg_start = 0, seg_end = 1, seg_text = t\<rparr>"
  by (simp add: normalize_segment_def Let_def)

lemma is_double_5_3: "is_double 5" "is_double 3"
  by code_simp+

lemma overflow_at_10e9_days:
  "is_double 86400000000000"
  "time_format 86400000000000 = Inl OverflowError"
  "create_srt [\<lparr>seg_start = 0, seg_end = 86400000000000, seg_text = []\<rparr>] = Inl OverflowError"
  "build_document [\<lparr>seg_start = 0, seg_end = 86400000000000, seg_text = []\<rparr>] = Inl OverflowError"
  by code_simp+

text \<open>
  C9, as amended. Every operation is a total function, and on well-typed input within
  the limits of its libraries each one returns a well-typed result:
  \<^item> the timing loop turns a segment with finite float start and end into one with
    finite float start and end, and leaves the text alone;
  \<^item> the cleaned text consists of code points of the text, the ellipsis and the
    period, so it has no lone surrogate unless the text has one;
  \<^item> \<^verbatim>\<open>time_format\<close> returns a timestamp for every number of seconds of magnitude
    below \<open>86399999913600\<close> (999999999 days, the range of \<^verbatim>\<open>timedelta\<close>);
  \<^item> \<^verbatim>\<open>create_srt\<close> returns a document when every start and end is in that range
    and no text holds a lone surrogate (U+D800 to U+DFFF), which UTF-8 cannot encode;
  \<^item> so does the timing loop followed by \<^verbatim>\<open>create_srt\<close> when, besides, every
    start is below \<open>86399999913598\<close>, so that \<^verbatim>\<open>start + 1\<close> stays in range.
\<close>

theorem formatter_succeeds:
  "(is_double (seg_start s) \<and> is_double (seg_end s) \<longrightarrow>
      is_double (seg_start (normalize_segment s)) \<and>
      is_double (seg_end (normalize_segment s)) \<and>
      seg_text (normalize_segment s) = seg_text s) \<and>
   set (clean_text t) \<subseteq> set t \<union> {ellipsis, 46} \<and>
   (utf8_encodable t \<longrightarrow> utf8_encodable (clean_text t)) \<and>
   (\<bar>x\<bar> < 86399999913600 \<longrightarrow> (\<exists>stamp. time_format x = Inr stamp)) \<and>
   ((\<forall>s\<in>set segs. \<bar>seg_start s\<bar> < 86399999913600 \<and> \<bar>seg_end s\<bar> < 86399999913600 \<and>
        utf8_encodable (seg_text s)) \<longrightarrow>
      (\<exists>doc. create_srt segs = Inr doc)) \<and>
   ((\<forall>s\<in>set segs. \<bar>seg_start s\<bar> < 86399999913598 \<and> \<bar>seg_end s\<bar> < 86399999913600 \<and>
        utf8_encodable (seg_text s)) \<longrightarrow>
      (\<exists>doc. build_document segs = Inr doc))"
proof (intro conjI impI)
  assume "is_double (seg_start s) \<and> is_double (seg_end s)"
  then show "is_double (seg_start (normalize_segment s))"
    "is_double (seg_end (normalize_segment s))"
    using is_double_normalize_segment [of s] by simp_all
next
  show "seg_text (normalize_segment s) = seg_text s"
    by (simp add: normalize_segment_def Let_def)
next
  show "set (clean_text t) \<subseteq> set t \<union> {ellipsis, 46}" by (rule set_clean_text)
next
  assume "utf8_encodable t"
  then show "utf8_encodable (clean_text t)" by (rule utf8_encodable_clean_text)
next
  assume "\<bar>x\<bar> < 86399999913600"
  then show "\<exists>stamp. time_format x = Inr stamp" by (rule time_format_in_range)
next
  assume "\<forall>s\<in>set segs. \<bar>seg_start s\<bar> < 86399999913600 \<and> \<bar>seg_end s\<bar> < 86399999913600 \<and>
    utf8_encodable (seg_text s)"
  then show "\<exists>doc. create_srt segs = Inr doc"
    unfolding create_srt_def by (rule write_segments_in_range)
next
  assume a: "\<forall>s\<in>set segs. \<bar>seg_start s\<bar> < 86399999913598 \<and> \<bar>seg_end s\<bar> < 86399999913600 \<and>
    utf8_encodable (seg_text s)"
  have "seg_text (normalize_segment s) = seg_text s" for s
    by (simp add: normalize_segment_def Let_def)
  then have "\<forall>s\<in>set (refine_timing segs).
          \<bar>seg_start s\<bar> < 86399999913600 \<and> \<bar>seg_end s\<bar> < 86399999913600 \<and>
          utf8_encodable (seg_text s)"
    using a normalize_segment_in_range by (auto simp: refine_timing_def)
  then show "\<exists>doc. build_document segs = Inr doc"
    unfolding build_document_def create_srt_def by (rule write_segments_in_range)
qed

theorem formatter_succeeds_witness:
  "is_double 5 \<and> is_double 3 \<and>
   is_double (seg_start (normalize_segment \<lparr>seg_start = 5, seg_end = 3, seg_text = py_str ''Hi''\<rparr>)) \<and>
   is_double (seg_end (normalize_segment \<lparr>seg_start = 5, seg_end = 3, seg_text = py_str ''Hi''\<rparr>)) \<and>
   utf8_encodable (py_str ''Hi'') \<and>
   utf8_encodable (clean_text (py_str ''Hi'')) \<and>
   \<bar>14645 / 4 :: rat\<bar> < 86399999913600 \<and>
   (\<exists>stamp. time_format (14645 / 4) = Inr stamp) \<and>
   (\<exists>doc. create_srt [\<lparr>seg_start = 0, seg_end = 2, seg_text = py_str ''Hi''\<rparr>,
                       \<lparr>seg_start = 2, seg_end = 3, seg_text = py_str ''Bye''\<rparr>] = Inr doc) \<and>
   (\<exists>doc. build_document [\<lparr>seg_start = 0, seg_end = 2, seg_text = py_str ''Hi''\<rparr>,
                           \<lparr>seg_start = 2, seg_end = 3, seg_text = py_str ''Bye''\<rparr>] = Inr doc)"
  using formatter_succeeds [of "\<lparr>seg_start = 5, seg_end = 3, seg_text = py_str ''Hi''\<rparr>"
      "py_str ''Hi''" "14645 / 4"
      "[\<lparr>seg_start = 0, seg_end = 2, seg_text = py_str ''Hi''\<rparr>,
        \<lparr>seg_start = 2, seg_end = 3, seg_text = py_str ''Bye''\<rparr>]"]
    is_double_5_3
  by (simp add: utf8_encodable_py_str)

text \<open>
  Two well-typed inputs on which the code raises. The float \<open>86400000000000\<close>
  (\<open>10\<^sup>9\<close> days in seconds) is finite, and \<^verbatim>\<open>timedelta\<close> raises \<^verbatim>\<open>OverflowError\<close>
  on it: \<^verbatim>\<open>time_format\<close> fails, and so does \<^verbatim>\<open>create_srt\<close> on a segment that ends
  there, with or without the timing loop before it. The one-character text U+D800 is a
  \<^verbatim>\<open>str\<close>, and writing it to the UTF-8 file raises \<^verbatim>\<open>UnicodeEncodeError\<close>.
\<close>

theorem time_format_overflow:
  "is_double 86400000000000 \<and>
   time_format 86400000000000 = Inl OverflowError \<and>
   create_srt [\<lparr>seg_start = 0, seg_end = 86400000000000, seg_text = []\<rparr>] = Inl OverflowError \<and>
   build_document [\<lparr>seg_start = 0, seg_end = 86400000000000, seg_text = []\<rparr>] = Inl OverflowError \<and>
   create_srt [\<lparr>seg_start = 0, seg_end = 1, seg_text = [0xD800]\<rparr>] = Inl UnicodeEncodeError \<and>
   build_document [\<lparr>seg_start = 0, seg_end = 1, seg_text = [0xD800]\<rparr>] = Inl UnicodeEncodeError"
  using overflow_at_10e9_days create_srt_surrogate
  by (simp add: build_document_def refine_timing_def normalize_segment_surrogate)

end
